theory Spec2Isabelle
  imports Main "HOL-Library.AList" "HOL-Library.Product_Lexorder"
begin

section \<open>Errors raised by the program\<close>

text \<open>
  The Python exceptions that the modelled functions can raise. A function that can raise
  returns \<open>error + 'a\<close>, with \<open>Inl\<close> for the exception.
\<close>

datatype error = IndexError | KeyError | ValueError | TypeError | ZeroDivisionError

section \<open>Divisor frequency analyzer\<close>

text \<open>
  \<open>divisor_counts\<close> is a \<open>defaultdict(int)\<close>: an association list in insertion order,
  where a missing key reads as 0 and \<open>divisor_counts[k] += 1\<close> inserts or updates the key.
\<close>

type_synonym divisor_dict = "(int \<times> int) list"

definition count_of :: "divisor_dict \<Rightarrow> int \<Rightarrow> int" where
  "count_of dc k = (case map_of dc k of None \<Rightarrow> 0 | Some c \<Rightarrow> c)"

definition increment :: "int \<Rightarrow> divisor_dict \<Rightarrow> divisor_dict" where
  "increment k dc = AList.update k (count_of dc k + 1) dc"

text \<open>
  \<open>int(n ** 0.5)\<close>: the power is a double. A candidate is below \<open>10 ^ 9\<close>, so its
  conversion to a double is exact and the root of a non-square lies farther from the next
  integer than the rounding error of the double: the truncated root is the integer square
  root, which \<open>floor_sqrt\<close> computes. For a negative \<open>n\<close> the power is a complex number
  and \<open>int\<close> raises \<open>TypeError\<close>. The theorems about \<open>count_divisors\<close> are stated for
  candidates below \<open>10 ^ 9\<close> only.
\<close>

fun floor_sqrt :: "nat \<Rightarrow> nat" where
  "floor_sqrt n =
     (if n < 4 then (if n = 0 then 0 else 1)
      else (let r = 2 * floor_sqrt (n div 4) in
            if (r + 1) * (r + 1) \<le> n then r + 1 else r))"

definition int_sqrt :: "int \<Rightarrow> error + int" where
  "int_sqrt n = (if n < 0 then Inl TypeError else Inr (int (floor_sqrt (nat n))))"

fun count_loop :: "int \<Rightarrow> int list \<Rightarrow> divisor_dict \<Rightarrow> divisor_dict" where
  "count_loop n [] dc = dc"
| "count_loop n (i # rest) dc =
     (if n mod i = 0 then
        (let dc1 = increment i dc in
         if i \<noteq> n div i then count_loop n rest (increment (n div i) dc1)
         else count_loop n rest dc1)
      else count_loop n rest dc)"

definition count_divisors :: "int \<Rightarrow> divisor_dict \<Rightarrow> error + divisor_dict" where
  "count_divisors n dc =
     (case int_sqrt n of
        Inl e \<Rightarrow> Inl e
      | Inr s \<Rightarrow> Inr (count_loop n [1..s] dc))"

fun build_loop :: "int list \<Rightarrow> divisor_dict \<Rightarrow> error + divisor_dict" where
  "build_loop [] dc = Inr dc"
| "build_loop (num # rest) dc =
     (case count_divisors num dc of
        Inl e \<Rightarrow> Inl e
      | Inr dc' \<Rightarrow> build_loop rest dc')"

definition build_divisor_counts :: "int list \<Rightarrow> error + divisor_dict" where
  "build_divisor_counts numbers = build_loop numbers []"

section \<open>Candidate filter\<close>

text \<open>
  The format \<open>f"{num:09}"\<close>: the decimal digits of \<open>num\<close>, padded with zeros on the left to
  width 9; a negative number keeps its sign in front and is padded after it.
\<close>

definition digit_char :: "nat \<Rightarrow> char" where
  "digit_char k = ''0123456789'' ! k"

fun decimal :: "nat \<Rightarrow> string" where
  "decimal n = (if n < 10 then [digit_char n] else decimal (n div 10) @ [digit_char (n mod 10)])"

definition format_09 :: "int \<Rightarrow> string" where
  "format_09 num =
     (if 0 \<le> num then
        (let s = decimal (nat num) in replicate (9 - length s) CHR ''0'' @ s)
      else
        (let s = decimal (nat (- num)) in CHR ''-'' # replicate (8 - length s) CHR ''0'' @ s))"

text \<open>\<open>num % divisor\<close> raises \<open>ZeroDivisionError\<close> at the first number when the divisor is 0.\<close>

definition find_numbers_with_divisor :: "int list \<Rightarrow> int \<Rightarrow> error + string list" where
  "find_numbers_with_divisor numbers divisor =
     (if divisor = 0 \<and> numbers \<noteq> [] then Inl ZeroDivisionError
      else Inr (map format_09 (filter (\<lambda>num. num mod divisor = 0) numbers)))"

text \<open>The value of a string of decimal digits, to state what the filter returns.\<close>

definition digit_value :: "char \<Rightarrow> int" where
  "digit_value c = int (of_char c) - 48"

definition decimal_value :: "string \<Rightarrow> int" where
  "decimal_value s = foldl (\<lambda>acc c. 10 * acc + digit_value c) 0 s"

section \<open>Positional coverage checker\<close>

text \<open>
  \<open>check_digit_positions\<close>: nine empty sets; every character of every number that is in
  \<open>symbols\<close> is added to the set of its position. \<open>position_digits[pos]\<close> raises
  \<open>IndexError\<close> for a position beyond 8.
\<close>

fun add_positions :: "char set \<Rightarrow> nat \<Rightarrow> string \<Rightarrow> char set list \<Rightarrow> error + char set list" where
  "add_positions symbols pos [] pd = Inr pd"
| "add_positions symbols pos (digit # rest) pd =
     (if digit \<in> symbols then
        (if pos < length pd then
           add_positions symbols (Suc pos) rest (pd[pos := insert digit (pd ! pos)])
         else Inl IndexError)
      else add_positions symbols (Suc pos) rest pd)"

fun positions_loop :: "char set \<Rightarrow> string list \<Rightarrow> char set list \<Rightarrow> error + char set list" where
  "positions_loop symbols [] pd = Inr pd"
| "positions_loop symbols (num # rest) pd =
     (case add_positions symbols 0 num pd of
        Inl e \<Rightarrow> Inl e
      | Inr pd' \<Rightarrow> positions_loop symbols rest pd')"

definition check_digit_positions :: "string list \<Rightarrow> char set \<Rightarrow> error + char set list" where
  "check_digit_positions numbers symbols = positions_loop symbols numbers (replicate 9 {})"

section \<open>Constraint model\<close>

text \<open>
  \<open>get_row_constraints\<close>: the dictionary literal, in insertion order (the order in which
  \<open>constraints.items()\<close> iterates). Row 4 maps to \<open>None\<close>.
\<close>

type_synonym row_constraints = "(nat \<times> (nat \<times> char) option) list"

definition get_row_constraints :: row_constraints where
  "get_row_constraints =
     [(0, Some (7, CHR ''2'')),
      (1, Some (8, CHR ''5'')),
      (2, Some (1, CHR ''2'')),
      (3, Some (2, CHR ''0'')),
      (4, None),
      (5, Some (3, CHR ''2'')),
      (6, Some (4, CHR ''0'')),
      (7, Some (5, CHR ''2'')),
      (8, Some (6, CHR ''5''))]"

text \<open>
  \<open>get_box_constraints\<close>: every box 0..8 starts with an empty list; each clued row appends
  \<open>(row, col, digit)\<close> to the list of box \<open>(row // 3) * 3 + col // 3\<close>. Indexing the
  dictionary with an absent key raises \<open>KeyError\<close>.
\<close>

type_synonym box_constraints = "(nat \<times> (nat \<times> nat \<times> char) list) list"

fun add_box_constraints :: "row_constraints \<Rightarrow> box_constraints \<Rightarrow> error + box_constraints" where
  "add_box_constraints [] bc = Inr bc"
| "add_box_constraints ((row, None) # rest) bc = add_box_constraints rest bc"
| "add_box_constraints ((row, Some (col, digit)) # rest) bc =
     (let box_num = (row div 3) * 3 + col div 3 in
      case map_of bc box_num of
        None \<Rightarrow> Inl KeyError
      | Some cs \<Rightarrow> add_box_constraints rest (AList.update box_num (cs @ [(row, col, digit)]) bc))"

definition get_box_constraints :: "error + box_constraints" where
  "get_box_constraints = add_box_constraints get_row_constraints (map (\<lambda>i. (i, [])) [0..<9])"

text \<open>
  \<open>check_box_constraints\<close>: for each of the three boxes of the row's band, the three
  characters of the candidate in the box's columns must not contain the digit of a clue of
  that box that belongs to another row. The inner loop returns \<open>False\<close> at the first such
  clue.
\<close>

fun check_box_cols :: "box_constraints \<Rightarrow> string \<Rightarrow> nat \<Rightarrow> nat \<Rightarrow> nat list \<Rightarrow> error + bool" where
  "check_box_cols bc num row box_row [] = Inr True"
| "check_box_cols bc num row box_row (box_col # cols) =
     (let box_num = box_row * 3 + box_col;
          box_start_col = box_col * 3;
          box_section = set (take 3 (drop box_start_col num)) in
      case map_of bc box_num of
        None \<Rightarrow> Inl KeyError
      | Some cs \<Rightarrow>
          if list_ex (\<lambda>(r, c, digit). r \<noteq> row \<and> digit \<in> box_section) cs then Inr False
          else check_box_cols bc num row box_row cols)"

definition check_box_constraints :: "string \<Rightarrow> nat \<Rightarrow> error + bool" where
  "check_box_constraints num row =
     (case get_box_constraints of
        Inl e \<Rightarrow> Inl e
      | Inr bc \<Rightarrow> check_box_cols bc num row (row div 3) [0..<3])"

text \<open>
  \<open>find_valid_row_for_number\<close>: the loop collects the clued rows whose positional clue the
  candidate matches and whose box check it passes; \<open>num[pos]\<close> raises \<open>IndexError\<close> when
  the candidate is too short.
\<close>

fun matching_rows_loop :: "string \<Rightarrow> row_constraints \<Rightarrow> nat list \<Rightarrow> error + nat list" where
  "matching_rows_loop num [] matching_rows = Inr matching_rows"
| "matching_rows_loop num ((row_idx, None) # rest) matching_rows =
     matching_rows_loop num rest matching_rows"
| "matching_rows_loop num ((row_idx, Some (pos, digit)) # rest) matching_rows =
     (if pos < length num then
        (if num ! pos = digit then
           (case check_box_constraints num row_idx of
              Inl e \<Rightarrow> Inl e
            | Inr True \<Rightarrow> matching_rows_loop num rest (matching_rows @ [row_idx])
            | Inr False \<Rightarrow> matching_rows_loop num rest matching_rows)
         else matching_rows_loop num rest matching_rows)
      else Inl IndexError)"

definition find_valid_row_for_number :: "string \<Rightarrow> row_constraints \<Rightarrow> error + nat option" where
  "find_valid_row_for_number num constraints =
     (case matching_rows_loop num constraints [] of
        Inl e \<Rightarrow> Inl e
      | Inr matching_rows \<Rightarrow>
          if length matching_rows > 1 then Inr None
          else if length matching_rows = 1 then Inr (Some (matching_rows ! 0))
          else (case check_box_constraints num 4 of
                  Inl e \<Rightarrow> Inl e
                | Inr True \<Rightarrow> Inr (Some 4)
                | Inr False \<Rightarrow> Inr None))"

text \<open>
  The positional clues a candidate matches, whatever its box checks say: the reading of
  "matches a row's positional clue" in the documentation of \<open>find_valid_row_for_number\<close>.
\<close>

definition positional_matches :: "string \<Rightarrow> row_constraints \<Rightarrow> nat list" where
  "positional_matches num constraints =
     map fst (filter (\<lambda>(row_idx, c). case c of None \<Rightarrow> False
                                      | Some (pos, digit) \<Rightarrow> pos < length num \<and> num ! pos = digit)
                     constraints)"

section \<open>Grid assembler\<close>

text \<open>
  \<open>valid_numbers_by_row\<close> is a \<open>defaultdict(list)\<close>: an association list from row index
  to the candidates of the row, where a missing row reads as the empty list.
\<close>

type_synonym row_dict = "(nat \<times> string list) list"

definition row_get :: "row_dict \<Rightarrow> nat \<Rightarrow> string list" where
  "row_get V r = (case map_of V r of None \<Rightarrow> [] | Some xs \<Rightarrow> xs)"

fun categorize_loop :: "string list \<Rightarrow> row_dict \<Rightarrow> error + row_dict" where
  "categorize_loop [] V = Inr V"
| "categorize_loop (num # rest) V =
     (case find_valid_row_for_number num get_row_constraints of
        Inl e \<Rightarrow> Inl e
      | Inr None \<Rightarrow> categorize_loop rest V
      | Inr (Some valid_row) \<Rightarrow>
          categorize_loop rest (AList.update valid_row (row_get V valid_row @ [num]) V))"

definition categorize_numbers_by_row :: "string list \<Rightarrow> error + row_dict" where
  "categorize_numbers_by_row numbers = categorize_loop numbers []"

text \<open>
  The state that \<open>backtrack\<close> mutates: its two arguments \<open>grid\<close> and \<open>used_numbers\<close>, and
  the lists \<open>column_sets\<close> and \<open>box_sets\<close> of the enclosing function.
\<close>

record search_state =
  grid :: "string list"
  used_numbers :: "string set"
  column_sets :: "char set list"
  box_sets :: "char set list"

text \<open>
  The validity loop over \<open>enumerate(num)\<close>: \<open>False\<close> at the first digit already in the set
  of its column or of its box. Indexing a list beyond its end raises \<open>IndexError\<close>.
\<close>

fun check_digits :: "nat \<Rightarrow> nat \<Rightarrow> string \<Rightarrow> char set list \<Rightarrow> char set list \<Rightarrow> error + bool" where
  "check_digits row_idx col [] cs bs = Inr True"
| "check_digits row_idx col (digit # ds) cs bs =
     (if col < length cs then
        (if digit \<in> cs ! col then Inr False
         else let box_index = (row_idx div 3) * 3 + col div 3 in
           if box_index < length bs then
             (if digit \<in> bs ! box_index then Inr False
              else check_digits row_idx (Suc col) ds cs bs)
           else Inl IndexError)
      else Inl IndexError)"

text \<open>The loops that add the digits of a committed number and remove them again.
  \<open>set.remove\<close> raises \<open>KeyError\<close> for an element that is not in the set.\<close>

fun add_digits :: "nat \<Rightarrow> nat \<Rightarrow> string \<Rightarrow> char set list \<Rightarrow> char set list \<Rightarrow>
    error + (char set list \<times> char set list)" where
  "add_digits row_idx col [] cs bs = Inr (cs, bs)"
| "add_digits row_idx col (digit # ds) cs bs =
     (if col < length cs then
        (let cs' = cs[col := insert digit (cs ! col)];
             box_index = (row_idx div 3) * 3 + col div 3 in
         if box_index < length bs then
           add_digits row_idx (Suc col) ds cs' (bs[box_index := insert digit (bs ! box_index)])
         else Inl IndexError)
      else Inl IndexError)"

fun remove_digits :: "nat \<Rightarrow> nat \<Rightarrow> string \<Rightarrow> char set list \<Rightarrow> char set list \<Rightarrow>
    error + (char set list \<times> char set list)" where
  "remove_digits row_idx col [] cs bs = Inr (cs, bs)"
| "remove_digits row_idx col (digit # ds) cs bs =
     (if col < length cs then
        (if digit \<in> cs ! col then
           (let cs' = cs[col := cs ! col - {digit}];
                box_index = (row_idx div 3) * 3 + col div 3 in
            if box_index < length bs then
              (if digit \<in> bs ! box_index then
                 remove_digits row_idx (Suc col) ds cs' (bs[box_index := bs ! box_index - {digit}])
               else Inl KeyError)
            else Inl IndexError)
         else Inl KeyError)
      else Inl IndexError)"

definition commit :: "nat \<Rightarrow> string \<Rightarrow> search_state \<Rightarrow> error + search_state" where
  "commit row_idx num st =
     (case add_digits row_idx 0 num (column_sets st) (box_sets st) of
        Inl e \<Rightarrow> Inl e
      | Inr (cs, bs) \<Rightarrow>
          Inr \<lparr>grid = grid st @ [num], used_numbers = insert num (used_numbers st),
               column_sets = cs, box_sets = bs\<rparr>)"

definition undo :: "nat \<Rightarrow> string \<Rightarrow> search_state \<Rightarrow> error + search_state" where
  "undo row_idx num st =
     (if grid st = [] then Inl IndexError
      else if num \<notin> used_numbers st then Inl KeyError
      else case remove_digits row_idx 0 num (column_sets st) (box_sets st) of
        Inl e \<Rightarrow> Inl e
      | Inr (cs, bs) \<Rightarrow>
          Inr \<lparr>grid = butlast (grid st), used_numbers = used_numbers st - {num},
               column_sets = cs, box_sets = bs\<rparr>)"

text \<open>
  \<open>backtrack\<close> and its loop over the candidates of the current row. \<open>row_idx\<close> is computed
  once, before the loop; the state after a failed recursive call and the undo step is the
  state in which the loop continues.
\<close>

function backtrack :: "row_dict \<Rightarrow> search_state \<Rightarrow> error + (string list option \<times> search_state)"
  and try_candidates :: "row_dict \<Rightarrow> nat \<Rightarrow> string list \<Rightarrow> search_state \<Rightarrow>
    error + (string list option \<times> search_state)" where
  "backtrack V st =
     (if length (grid st) = 9 then Inr (Some (grid st), st)
      else try_candidates V (length (grid st)) (row_get V (length (grid st))) st)"
| "try_candidates V row_idx [] st = Inr (None, st)"
| "try_candidates V row_idx (num # rest) st =
     (if num \<in> used_numbers st then try_candidates V row_idx rest st
      else case check_digits row_idx 0 num (column_sets st) (box_sets st) of
        Inl e \<Rightarrow> Inl e
      | Inr False \<Rightarrow> try_candidates V row_idx rest st
      | Inr True \<Rightarrow>
          (case commit row_idx num st of
             Inl e \<Rightarrow> Inl e
           | Inr st1 \<Rightarrow>
               (case backtrack V st1 of
                  Inl e \<Rightarrow> Inl e
                | Inr (Some result, st2) \<Rightarrow> Inr (Some result, st2)
                | Inr (None, st2) \<Rightarrow>
                    (case undo row_idx num st2 of
                       Inl e \<Rightarrow> Inl e
                     | Inr st3 \<Rightarrow> try_candidates V row_idx rest st3))))"
  by pat_completeness auto

text \<open>
  Termination: every commit adds a candidate that was not used before, and a call of
  \<open>backtrack\<close> returns a state in which no used number has been forgotten.
\<close>

lemma commit_used: "commit r num st = Inr st1 \<Longrightarrow> used_numbers st1 = insert num (used_numbers st)"
  by (auto simp: commit_def split: sum.splits prod.splits)

lemma undo_used: "undo r num st2 = Inr st3 \<Longrightarrow> used_numbers st3 = used_numbers st2 - {num}"
  by (auto simp: undo_def split: sum.splits prod.splits if_splits)

lemma used_grows:
  "backtrack_try_candidates_dom (Inl (V, st)) \<Longrightarrow> backtrack V st = Inr (res, st') \<Longrightarrow>
     used_numbers st \<subseteq> used_numbers st'"
  "backtrack_try_candidates_dom (Inr (V, r, cands, st)) \<Longrightarrow>
     try_candidates V r cands st = Inr (res, st') \<Longrightarrow> used_numbers st \<subseteq> used_numbers st'"
proof (induct V st and V r cands st arbitrary: res st' and res st' rule: backtrack_try_candidates.pinduct)
  case (1 V st)
  then show ?case by (auto simp: backtrack.psimps split: if_splits)
next
  case (2 V row_idx st)
  then show ?case by (simp add: try_candidates.psimps)
next
  case (3 V row_idx num rest st)
  show ?case
  proof (cases "num \<in> used_numbers st")
    case True
    with 3 show ?thesis by (simp add: try_candidates.psimps)
  next
    case False
    note nu = False
    show ?thesis
    proof (cases "check_digits row_idx 0 num (column_sets st) (box_sets st)")
      case (Inl e)
      with 3 nu show ?thesis by (simp add: try_candidates.psimps)
    next
      case (Inr ok)
      show ?thesis
      proof (cases ok)
        case False
        with 3(1,6) "3.hyps"(5)[OF nu Inr] nu Inr show ?thesis by (simp add: try_candidates.psimps)
      next
        case True
        have ok: "check_digits row_idx 0 num (column_sets st) (box_sets st) = Inr True"
          using Inr True by simp
        show ?thesis
        proof (cases "commit row_idx num st")
          case (Inl e)
          with 3 nu ok show ?thesis by (simp add: try_candidates.psimps)
        next
          case (Inr st1)
          note c = Inr
          have u1: "used_numbers st \<subseteq> used_numbers st1" using commit_used[OF c] by auto
          show ?thesis
          proof (cases "backtrack V st1")
            case (Inl e)
            with 3 nu ok c show ?thesis by (simp add: try_candidates.psimps)
          next
            case (Inr p)
            obtain ro st2 where p: "p = (ro, st2)" by (cases p)
            note b = Inr[unfolded p]
            have u2: "used_numbers st1 \<subseteq> used_numbers st2"
              using "3.hyps"(3)[OF nu ok refl c b] .
            show ?thesis
            proof (cases ro)
              case (Some g)
              with 3(1,6) nu ok c b u1 u2 show ?thesis by (auto simp: try_candidates.psimps)
            next
              case None
              note b' = b[unfolded None]
              show ?thesis
              proof (cases "undo row_idx num st2")
                case (Inl e)
                with 3(1,6) nu ok c b' show ?thesis by (simp add: try_candidates.psimps)
              next
                case (Inr st3)
                have u3: "used_numbers st \<subseteq> used_numbers st3"
                  using undo_used[OF Inr] u1 u2 nu commit_used[OF c] by auto
                have "try_candidates V row_idx rest st3 = Inr (res, st')"
                  using 3(1,6) nu ok c b' Inr by (simp add: try_candidates.psimps)
                from "3.hyps"(4)[OF nu ok refl c b' refl refl Inr this] u3 show ?thesis by auto
              qed
            qed
          qed
        qed
      qed
    qed
  qed
qed


definition candidates_of :: "row_dict \<Rightarrow> string set" where
  "candidates_of V = (\<Union>(r, xs) \<in> set V. set xs)"

lemma finite_candidates_of: "finite (candidates_of V)"
  by (auto simp: candidates_of_def)

lemma row_get_candidates: "set (row_get V r) \<subseteq> candidates_of V"
proof
  fix x assume "x \<in> set (row_get V r)"
  then obtain xs where "map_of V r = Some xs" "x \<in> set xs"
    by (cases "map_of V r") (auto simp: row_get_def)
  then have "(r, xs) \<in> set V" "x \<in> set xs" by (auto dest: map_of_SomeD)
  then show "x \<in> candidates_of V" unfolding candidates_of_def by blast
qed

termination backtrack
proof (relation "measures
    [\<lambda>x. case x of Inl (V, st) \<Rightarrow> card (candidates_of V - used_numbers st)
             | Inr (V, r, cands, st) \<Rightarrow> card ((candidates_of V \<union> set cands) - used_numbers st),
     \<lambda>x. case x of Inl _ \<Rightarrow> 1 | Inr _ \<Rightarrow> 0,
     \<lambda>x. case x of Inl _ \<Rightarrow> 0 | Inr (V, r, cands, st) \<Rightarrow> length cands]", goal_cases)
  case 1
  show ?case by simp
next
  case (2 V st)
  have "candidates_of V \<union> set (row_get V (length (grid st))) = candidates_of V"
    using row_get_candidates[of V "length (grid st)"] by auto
  then show ?case by simp
next
  case (3 V row_idx num rest st)
  have "card ((candidates_of V \<union> set rest) - used_numbers st)
      \<le> card ((candidates_of V \<union> set (num # rest)) - used_numbers st)"
    by (rule card_mono) (auto simp: finite_candidates_of)
  then show ?case by auto
next
  case (4 V row_idx num rest st ok st1)
  have "candidates_of V - used_numbers st1
      \<subset> (candidates_of V \<union> set (num # rest)) - used_numbers st"
    using 4(1) commit_used[OF 4(4)] by auto
  then have "card (candidates_of V - used_numbers st1)
      < card ((candidates_of V \<union> set (num # rest)) - used_numbers st)"
    by (intro psubset_card_mono) (auto simp: finite_candidates_of)
  then show ?case by simp
next
  case (5 V row_idx num rest st ok st1 p ro st2 st3)
  have "used_numbers st1 \<subseteq> used_numbers st2"
    using used_grows(1)[OF 5(9)] 5(5,6) by (cases p) auto
  then have "used_numbers st \<subseteq> used_numbers st3"
    using undo_used[OF 5(8)] commit_used[OF 5(4)] 5(1) by auto
  then have "card ((candidates_of V \<union> set rest) - used_numbers st3)
      \<le> card ((candidates_of V \<union> set (num # rest)) - used_numbers st)"
    by (intro card_mono) (auto simp: finite_candidates_of)
  then show ?case by auto
next
  case (6 V row_idx num rest st ok)
  have "card ((candidates_of V \<union> set rest) - used_numbers st)
      \<le> card ((candidates_of V \<union> set (num # rest)) - used_numbers st)"
    by (rule card_mono) (auto simp: finite_candidates_of)
  then show ?case by auto
qed


definition initial_state :: search_state where
  "initial_state = \<lparr>grid = [], used_numbers = {}, column_sets = replicate 9 {}, box_sets = replicate 9 {}\<rparr>"

definition try_build_sudoku_grid :: "string list \<Rightarrow> error + string list option" where
  "try_build_sudoku_grid numbers =
     (case categorize_numbers_by_row numbers of
        Inl e \<Rightarrow> Inl e
      | Inr V \<Rightarrow>
          if list_ex (\<lambda>i. row_get V i = []) [0..<9] then Inr None
          else (case backtrack V initial_state of
                  Inl e \<Rightarrow> Inl e
                | Inr (result, st) \<Rightarrow> Inr result))"

section \<open>Top-level orchestration\<close>

text \<open>\<open>analyze_divisor\<close>, without its printing.\<close>

definition analyze_divisor :: "int \<Rightarrow> int \<Rightarrow> int list \<Rightarrow> char set \<Rightarrow> error + bool" where
  "analyze_divisor divisor count numbers symbols =
     (case find_numbers_with_divisor numbers divisor of
        Inl e \<Rightarrow> Inl e
      | Inr divisible_numbers \<Rightarrow>
          (case check_digit_positions divisible_numbers symbols of
             Inl e \<Rightarrow> Inl e
           | Inr position_digits \<Rightarrow>
               if list_all (\<lambda>digits. card digits = card symbols) position_digits then
                 (case try_build_sudoku_grid divisible_numbers of
                    Inl e \<Rightarrow> Inl e
                  | Inr (Some g) \<Rightarrow> Inr True
                  | Inr None \<Rightarrow> Inr False)
               else Inr False))"

text \<open>
  The loop of \<open>main\<close> over \<open>sorted(divisor_counts.items(), reverse=True)\<close>. The model
  returns the calls of \<open>analyze_divisor\<close> in order, each divisor with the result of its
  call; the loop breaks after a call that returns \<open>True\<close>.
\<close>

fun main_loop :: "int list \<Rightarrow> char set \<Rightarrow> (int \<times> int) list \<Rightarrow> error + (int \<times> bool) list" where
  "main_loop numbers symbols [] = Inr []"
| "main_loop numbers symbols ((divisor, count) # rest) =
     (if count \<ge> 9 then
        (case analyze_divisor divisor count numbers symbols of
           Inl e \<Rightarrow> Inl e
         | Inr True \<Rightarrow> Inr [(divisor, True)]
         | Inr False \<Rightarrow>
             (case main_loop numbers symbols rest of
                Inl e \<Rightarrow> Inl e
              | Inr calls \<Rightarrow> Inr ((divisor, False) # calls)))
      else main_loop numbers symbols rest)"

definition sorted_items :: "divisor_dict \<Rightarrow> (int \<times> int) list" where
  "sorted_items dc = rev (sort dc)"

definition main_search :: "int list \<Rightarrow> char set \<Rightarrow> error + (int \<times> bool) list" where
  "main_search numbers symbols =
     (case build_divisor_counts numbers of
        Inl e \<Rightarrow> Inl e
      | Inr divisor_counts \<Rightarrow> main_loop numbers symbols (sorted_items divisor_counts))"

section \<open>Row eligibility\<close>

text \<open>
  C2: a candidate that matches the positional clue of two or more clued rows is eligible for
  no row. The code counts a clued row only when the candidate also passes that row's box
  check, so a candidate matching the clues of rows 0 and 1 and failing both box checks
  reaches the row-4 test and is returned for row 4.
\<close>

theorem find_valid_row_two_clues_gives_row:
  "positional_matches ''134067825'' get_row_constraints = [0, 1] \<and>
   find_valid_row_for_number ''134067825'' get_row_constraints = Inr (Some 4) \<and>
   positional_matches ''130467825'' get_row_constraints = [0, 1, 3] \<and>
   find_valid_row_for_number ''130467825'' get_row_constraints = Inr (Some 3)"
  by code_simp

text \<open>
  C3: a candidate is returned for row 4 exactly when it matches no positional clue and
  passes the box check of row 4. The code returns row 4 for a candidate that matches the
  positional clue of row 1 (digit 5 in column 8) and fails the box check of row 1.
\<close>

theorem find_valid_row_clued_candidate_gets_row4:
  "positional_matches ''213467805'' get_row_constraints = [1] \<and>
   check_box_constraints ''213467805'' 1 = Inr False \<and>
   find_valid_row_for_number ''213467805'' get_row_constraints = Inr (Some 4)"
  by code_simp

section \<open>The candidate filter returns the padded forms of the multiples\<close>

declare decimal.simps [simp del]

lemma replicate_numeral: "replicate (numeral k) x = x # replicate (pred_numeral k) x"
  by (simp add: numeral_eq_Suc)

lemma digit_char_set: "k < 10 \<Longrightarrow> digit_char k \<in> set ''0123456789''"
  unfolding digit_char_def by (rule nth_mem) simp

lemma digit_value_digit_char: "k < 10 \<Longrightarrow> digit_value (digit_char k) = int k"
proof -
  assume "k < 10"
  then have "k \<in> {0,1,2,3,4,5,6,7,8,9}" by auto
  then show ?thesis by (auto simp: digit_value_def digit_char_def)
qed

lemma decimal_digits: "set (decimal n) \<subseteq> set ''0123456789''"
proof (induction n rule: decimal.induct)
  case (1 n)
  show ?case
  proof (cases "n < 10")
    case True
    then show ?thesis using digit_char_set[of n] by (subst decimal.simps) simp
  next
    case False
    have "n mod 10 < 10" by simp
    from digit_char_set[OF this] 1[OF False] False show ?thesis
      by (subst decimal.simps) simp
  qed
qed

lemma decimal_length: "0 < k \<Longrightarrow> n < 10 ^ k \<Longrightarrow> length (decimal n) \<le> k"
proof (induction n arbitrary: k rule: decimal.induct)
  case (1 n)
  show ?case
  proof (cases "n < 10")
    case True
    then show ?thesis using 1(2) by (subst decimal.simps) simp
  next
    case False
    then have k1: "1 < k" using 1(3) by (cases "k = 1") (use 1(2) in auto)
    then obtain j where j: "k = Suc j" "0 < j" by (cases k) auto
    have "n div 10 < 10 ^ j" using 1(3) j by (simp add: less_mult_imp_div_less mult.commute)
    from 1(1)[OF False j(2) this] j False show ?thesis
      by (subst decimal.simps) simp
  qed
qed

lemma decimal_value_snoc: "decimal_value (s @ [c]) = 10 * decimal_value s + digit_value c"
  by (simp add: decimal_value_def)

lemma decimal_value_decimal: "decimal_value (decimal n) = int n"
proof (induction n rule: decimal.induct)
  case (1 n)
  show ?case
  proof (cases "n < 10")
    case True
    then show ?thesis
      by (subst decimal.simps) (simp add: decimal_value_def digit_value_digit_char)
  next
    case False
    have "n mod 10 < 10" by simp
    have "int n = int (10 * (n div 10) + n mod 10)" by simp
    also have "\<dots> = 10 * int (n div 10) + int (n mod 10)"
      by (simp only: of_nat_add of_nat_mult of_nat_numeral)
    finally have split: "10 * int (n div 10) + int (n mod 10) = int n" by simp
    have "decimal_value (decimal n) = 10 * int (n div 10) + int (n mod 10)"
      using 1[OF False] False digit_value_digit_char[OF \<open>n mod 10 < 10\<close>]
      by (subst decimal.simps) (simp only: if_False decimal_value_snoc)
    with split show ?thesis by simp
  qed
qed

lemma decimal_value_zeros: "decimal_value (replicate k CHR ''0'' @ s) = decimal_value s"
proof -
  have "foldl (\<lambda>acc c. 10 * acc + digit_value c) 0 (replicate k CHR ''0'') = 0"
    by (induction k) (simp_all add: digit_value_def)
  then show ?thesis by (simp add: decimal_value_def)
qed

lemma format_09_nonneg:
  assumes "0 \<le> n" "n < 10 ^ 9"
  shows "length (format_09 n) = 9" "set (format_09 n) \<subseteq> set ''0123456789''"
    "decimal_value (format_09 n) = n"
proof -
  have "nat n < 10 ^ 9" using assms by (simp add: nat_less_iff)
  then have len: "length (decimal (nat n)) \<le> 9" by (intro decimal_length) simp_all
  show "length (format_09 n) = 9" using assms len by (simp add: format_09_def Let_def)
  show "set (format_09 n) \<subseteq> set ''0123456789''"
    using assms decimal_digits[of "nat n"] by (auto simp: format_09_def Let_def)
  show "decimal_value (format_09 n) = n"
    using assms by (simp add: format_09_def Let_def decimal_value_zeros decimal_value_decimal)
qed

text \<open>
  C8: for candidates from 0 up to \<open>10 ^ 9\<close> (exclusive) and a positive divisor, the filter
  returns, in order, one string for each candidate divisible by the divisor and nothing
  else: the strings decode to exactly those candidates, and each has 9 characters, all of
  them decimal digits (leading zeros restored by the padding).
\<close>

theorem find_numbers_with_divisor_correct:
  assumes "\<forall>n \<in> set numbers. 0 \<le> n \<and> n < 10 ^ 9" and "0 < d"
  shows "\<exists>strs. find_numbers_with_divisor numbers d = Inr strs \<and>
           map decimal_value strs = filter (\<lambda>n. n mod d = 0) numbers \<and>
           (\<forall>s \<in> set strs. length s = 9 \<and> set s \<subseteq> set ''0123456789'')"
proof -
  let ?sel = "filter (\<lambda>n. n mod d = 0) numbers"
  have "set ?sel \<subseteq> set numbers" by (rule filter_is_subset)
  with assms(1) have sel: "\<forall>n \<in> set ?sel. 0 \<le> n \<and> n < 10 ^ 9" by blast
  have "map decimal_value (map format_09 ?sel) = ?sel"
  proof -
    have "\<And>n. n \<in> set ?sel \<Longrightarrow> decimal_value (format_09 n) = n"
    proof -
      fix n assume "n \<in> set ?sel"
      with sel have "0 \<le> n \<and> n < 10 ^ 9" by (rule bspec)
      then show "decimal_value (format_09 n) = n" by (intro format_09_nonneg(3)) blast+
    qed
    then have "map (\<lambda>n. decimal_value (format_09 n)) ?sel = ?sel" by (intro map_idI)
    then show ?thesis by (simp only: map_map o_def)
  qed
  moreover have "\<forall>s \<in> set (map format_09 ?sel). length s = 9 \<and> set s \<subseteq> set ''0123456789''"
  proof
    fix s assume "s \<in> set (map format_09 ?sel)"
    then have "s \<in> format_09 ` set ?sel" by (simp only: set_map)
    then obtain n where n: "n \<in> set ?sel" "s = format_09 n" by (rule imageE)
    from sel n(1) have "0 \<le> n \<and> n < 10 ^ 9" by (rule bspec)
    then have "0 \<le> n" "n < 10 ^ 9" by blast+
    then show "length s = 9 \<and> set s \<subseteq> set ''0123456789''"
      unfolding n(2) by (intro conjI format_09_nonneg(1,2))
  qed
  ultimately show ?thesis using assms(2) by (simp add: find_numbers_with_divisor_def)
qed

theorem find_numbers_with_divisor_correct_witness:
  "find_numbers_with_divisor [12345678, 123456789, 24] 3 = Inr [''012345678'', ''123456789'', ''000000024''] \<and>
   (\<exists>strs. find_numbers_with_divisor [12345678, 123456789, 24] 3 = Inr strs \<and>
           map decimal_value strs = filter (\<lambda>n. n mod 3 = 0) [12345678, 123456789, 24] \<and>
           (\<forall>s \<in> set strs. length s = 9 \<and> set s \<subseteq> set ''0123456789''))"
proof -
  have h: "\<forall>n \<in> set [12345678, 123456789, 24]. 0 \<le> n \<and> n < (10::int) ^ 9" by simp
  have e: "find_numbers_with_divisor [12345678, 123456789, 24] 3 = Inr [''012345678'', ''123456789'', ''000000024'']"
    by (simp add: find_numbers_with_divisor_def format_09_def decimal.simps digit_char_def replicate_numeral)
  have p: "(0::int) < 3" by simp
  show ?thesis by (intro conjI e find_numbers_with_divisor_correct[OF h p])
qed

section \<open>The positional coverage sets stay inside the alphabet\<close>

lemma add_positions_result:
  "pos + length ds \<le> length pd \<Longrightarrow>
   \<exists>pd'. add_positions symbols pos ds pd = Inr pd' \<and> length pd' = length pd \<and>
     (\<forall>i < length pd. pd' ! i =
        pd ! i \<union> (if pos \<le> i \<and> i < pos + length ds \<and> ds ! (i - pos) \<in> symbols
                   then {ds ! (i - pos)} else {}))"
proof (induction ds arbitrary: pos pd)
  case Nil
  then show ?case by auto
next
  case (Cons d ds)
  let ?pd1 = "if d \<in> symbols then pd[pos := insert d (pd ! pos)] else pd"
  have len1: "length ?pd1 = length pd" by simp
  have "Suc pos + length ds \<le> length ?pd1" using Cons.prems by simp
  from Cons.IH[OF this] obtain pd' where
    r: "add_positions symbols (Suc pos) ds ?pd1 = Inr pd'" and
    l: "length pd' = length pd" and
    c: "\<forall>i < length pd. pd' ! i =
        ?pd1 ! i \<union> (if Suc pos \<le> i \<and> i < Suc pos + length ds \<and> ds ! (i - Suc pos) \<in> symbols
                   then {ds ! (i - Suc pos)} else {})"
    unfolding len1 by blast
  have step: "add_positions symbols pos (d # ds) pd = Inr pd'"
    using r Cons.prems by (cases "d \<in> symbols") simp_all
  have "\<forall>i < length pd. pd' ! i =
        pd ! i \<union> (if pos \<le> i \<and> i < pos + length (d # ds) \<and> (d # ds) ! (i - pos) \<in> symbols
                   then {(d # ds) ! (i - pos)} else {})"
  proof (intro allI impI)
    fix i assume i: "i < length pd"
    show "pd' ! i = pd ! i \<union> (if pos \<le> i \<and> i < pos + length (d # ds) \<and> (d # ds) ! (i - pos) \<in> symbols
                   then {(d # ds) ! (i - pos)} else {})"
    proof (cases "i = pos")
      case True
      then show ?thesis using c i by auto
    next
      case False
      have "(d # ds) ! (i - pos) = ds ! (i - Suc pos)" if "pos \<le> i"
      proof -
        from that False have "i - pos = Suc (i - Suc pos)" by arith
        then show ?thesis by simp
      qed
      then show ?thesis using c i False by (auto simp: nth_list_update)
    qed
  qed
  with step l show ?case by blast
qed

lemma positions_loop_result:
  "\<forall>num \<in> set numbers. length num \<le> length pd \<Longrightarrow>
   \<exists>pd'. positions_loop symbols numbers pd = Inr pd' \<and> length pd' = length pd \<and>
     (\<forall>i < length pd. pd' ! i =
        pd ! i \<union> {c \<in> symbols. \<exists>num \<in> set numbers. i < length num \<and> num ! i = c})"
proof (induction numbers arbitrary: pd)
  case Nil
  then show ?case by simp
next
  case (Cons num numbers)
  have "0 + length num \<le> length pd" using Cons.prems by simp
  from add_positions_result[OF this, of symbols] obtain pd1 where
    r1: "add_positions symbols 0 num pd = Inr pd1" and l1: "length pd1 = length pd" and
    c1: "\<forall>i < length pd. pd1 ! i =
        pd ! i \<union> (if i < length num \<and> num ! i \<in> symbols then {num ! i} else {})"
    by auto
  have "\<forall>n \<in> set numbers. length n \<le> length pd1" using Cons.prems l1 by simp
  from Cons.IH[OF this] obtain pd' where
    r: "positions_loop symbols numbers pd1 = Inr pd'" and l: "length pd' = length pd1" and
    c: "\<forall>i < length pd1. pd' ! i =
        pd1 ! i \<union> {c \<in> symbols. \<exists>n \<in> set numbers. i < length n \<and> n ! i = c}"
    by blast
  have "positions_loop symbols (num # numbers) pd = Inr pd'" using r1 r by simp
  moreover have "length pd' = length pd" using l l1 by simp
  moreover have "\<forall>i < length pd. pd' ! i =
        pd ! i \<union> {c \<in> symbols. \<exists>n \<in> set (num # numbers). i < length n \<and> n ! i = c}"
    using c c1 l1 by auto
  ultimately show ?case by blast
qed

text \<open>
  C10: for 9-character strings, every one of the nine sets returned by
  \<open>check_digit_positions\<close> is the set of the symbols observed at its position, hence a
  subset of the symbol set, and its size equals the size of the symbol set exactly when it
  is the whole symbol set.
\<close>

theorem check_digit_positions_subset:
  assumes "\<forall>num \<in> set numbers. length num = 9"
  shows "\<exists>pd. check_digit_positions numbers symbols = Inr pd \<and> length pd = 9 \<and>
           (\<forall>i < 9. pd ! i = {c \<in> symbols. \<exists>num \<in> set numbers. num ! i = c} \<and>
                    pd ! i \<subseteq> symbols \<and>
                    (card (pd ! i) = card symbols \<longleftrightarrow> pd ! i = symbols))"
proof -
  have "\<forall>num \<in> set numbers. length num \<le> length (replicate 9 ({}::char set))"
    using assms by simp
  from positions_loop_result[OF this, of symbols] obtain pd where
    r: "check_digit_positions numbers symbols = Inr pd" and l: "length pd = 9" and
    c: "\<forall>i < 9. pd ! i = {c \<in> symbols. \<exists>num \<in> set numbers. i < length num \<and> num ! i = c}"
    unfolding check_digit_positions_def by auto
  have "\<forall>i < 9. pd ! i = {c \<in> symbols. \<exists>num \<in> set numbers. num ! i = c} \<and>
                    pd ! i \<subseteq> symbols \<and>
                    (card (pd ! i) = card symbols \<longleftrightarrow> pd ! i = symbols)"
  proof (intro allI impI)
    fix i :: nat assume i: "i < 9"
    have e: "pd ! i = {c \<in> symbols. \<exists>num \<in> set numbers. num ! i = c}"
      using c i assms by auto
    then have s: "pd ! i \<subseteq> symbols" by blast
    have "finite symbols" by simp
    then have "card (pd ! i) = card symbols \<longleftrightarrow> pd ! i = symbols"
      using s card_subset_eq by blast
    with e s show "pd ! i = {c \<in> symbols. \<exists>num \<in> set numbers. num ! i = c} \<and>
                    pd ! i \<subseteq> symbols \<and>
                    (card (pd ! i) = card symbols \<longleftrightarrow> pd ! i = symbols)" by blast
  qed
  with r l show ?thesis by blast
qed

theorem check_digit_positions_subset_witness:
  "check_digit_positions [''012345678'', ''123456780''] (set ''01234567'') =
     Inr [{CHR ''1'', CHR ''0''}, {CHR ''2'', CHR ''1''}, {CHR ''3'', CHR ''2''},
          {CHR ''4'', CHR ''3''}, {CHR ''5'', CHR ''4''}, {CHR ''6'', CHR ''5''},
          {CHR ''7'', CHR ''6''}, {CHR ''7''}, {CHR ''0''}] \<and>
   (\<exists>pd. check_digit_positions [''012345678'', ''123456780''] (set ''01234567'') = Inr pd \<and>
         length pd = 9 \<and>
         (\<forall>i < 9. pd ! i = {c \<in> set ''01234567''. \<exists>num \<in> set [''012345678'', ''123456780'']. num ! i = c} \<and>
                  pd ! i \<subseteq> set ''01234567'' \<and>
                  (card (pd ! i) = card (set ''01234567'') \<longleftrightarrow> pd ! i = set ''01234567'')))"
proof -
  have h: "\<forall>num \<in> set [''012345678'', ''123456780'']. length num = 9" by simp
  have e: "check_digit_positions [''012345678'', ''123456780''] (set ''01234567'') =
     Inr [{CHR ''1'', CHR ''0''}, {CHR ''2'', CHR ''1''}, {CHR ''3'', CHR ''2''},
          {CHR ''4'', CHR ''3''}, {CHR ''5'', CHR ''4''}, {CHR ''6'', CHR ''5''},
          {CHR ''7'', CHR ''6''}, {CHR ''7''}, {CHR ''0''}]"
    by (simp add: check_digit_positions_def numeral_eq_Suc)
  show ?thesis by (intro conjI e check_digit_positions_subset[OF h])
qed

section \<open>Early exit of the grid assembler\<close>

text \<open>
  C9: when some row 0..8 has no eligible candidate after the categorization, the result
  is \<open>None\<close>; the branch is taken before \<open>backtrack\<close> is called. The input of the witness
  is one on which the search itself would raise \<open>IndexError\<close> (a 10-character candidate
  for row 0): the result is \<open>None\<close> all the same.
\<close>

lemma search_would_raise:
  "backtrack [(0, [''1346780295''])] initial_state = Inl IndexError"
  by code_simp

theorem try_build_early_exit:
  assumes "categorize_numbers_by_row numbers = Inr V" and "i < 9" and "row_get V i = []"
  shows "try_build_sudoku_grid numbers = Inr None"
proof -
  have "i \<in> set [0..<9]" using assms(2) by simp
  with assms(3) have "list_ex (\<lambda>i. row_get V i = []) [0..<9]"
    unfolding list_ex_iff by blast
  with assms(1) show ?thesis by (simp add: try_build_sudoku_grid_def)
qed

theorem try_build_early_exit_witness:
  "categorize_numbers_by_row [''1346780295''] = Inr [(0, [''1346780295''])] \<and>
   row_get [(0, [''1346780295''])] 1 = [] \<and>
   try_build_sudoku_grid [''1346780295''] = Inr None"
proof -
  have c: "categorize_numbers_by_row [''1346780295''] = Inr [(0, [''1346780295''])]"
    by code_simp
  have i: "(1::nat) < 9" by simp
  have e: "row_get [(0, [''1346780295''])] 1 = []" by code_simp
  show ?thesis by (intro conjI c e try_build_early_exit[OF c i e])
qed

section \<open>The divisor counts are exact\<close>

declare floor_sqrt.simps [simp del]

lemma floor_sqrt_bounds:
  "floor_sqrt n * floor_sqrt n \<le> n \<and> n < (floor_sqrt n + 1) * (floor_sqrt n + 1)"
proof (induction n rule: floor_sqrt.induct)
  case (1 n)
  show ?case
  proof (cases "n < 4")
    case True
    then have "floor_sqrt n = (if n = 0 then 0 else 1)" by (subst floor_sqrt.simps) simp
    with True show ?thesis by auto
  next
    case False
    define s where "s = floor_sqrt (n div 4)"
    define q where "q = n div 4"
    have ih: "s * s \<le> q" "q < (s + 1) * (s + 1)" using 1[OF False] by (simp_all add: s_def q_def)
    have nq: "4 * q \<le> n" "n < 4 * q + 4" by (simp_all add: q_def)
    have e1: "(2 * s) * (2 * s) = 4 * (s * s)" by simp
    have e2: "(2 * s + 1 + 1) * (2 * s + 1 + 1) = 4 * ((s + 1) * (s + 1))" by (simp add: algebra_simps)
    have lo: "(2 * s) * (2 * s) \<le> n" using ih(1) nq(1) unfolding e1 by linarith
    have hi: "n < (2 * s + 1 + 1) * (2 * s + 1 + 1)" using ih(2) nq(2) unfolding e2 by linarith
    have fs: "floor_sqrt n = (if (2 * s + 1) * (2 * s + 1) \<le> n then 2 * s + 1 else 2 * s)"
      using False by (subst floor_sqrt.simps) (simp add: s_def Let_def)
    show ?thesis
    proof (cases "(2 * s + 1) * (2 * s + 1) \<le> n")
      case True
      with fs hi show ?thesis by simp
    next
      case False
      with fs lo show ?thesis by simp
    qed
  qed
qed

lemma count_of_increment:
  "count_of (increment k dc) d = (if d = k then count_of dc k + 1 else count_of dc d)"
  by (simp add: count_of_def increment_def update_conv')

lemma keys_increment: "fst ` set (increment k dc) = insert k (fst ` set dc)"
  by (simp add: increment_def dom_update)

lemma distinct_increment: "distinct (map fst dc) \<Longrightarrow> distinct (map fst (increment k dc))"
  by (simp add: increment_def distinct_update)

lemma count_loop_append: "count_loop n (xs @ ys) dc = count_loop n ys (count_loop n xs dc)"
  by (induction xs arbitrary: dc) (simp_all add: Let_def)

text \<open>The divisors reached after the trial divisors \<open>1..k\<close>: those at most \<open>k\<close> and their cofactors.\<close>

definition reached :: "int \<Rightarrow> int \<Rightarrow> int set" where
  "reached n k = {d. 0 < d \<and> d dvd n \<and> (d \<le> k \<or> n div d \<le> k)}"

lemma cofactor:
  fixes n i :: int
  assumes "0 < n" "0 < i" "i dvd n"
  shows "0 < n div i" "n div i dvd n" "n div (n div i) = i" "i * (n div i) = n"
proof -
  from assms(3) obtain j where j: "n = i * j" by (rule dvdE)
  have jp: "0 < j" using assms(1,2) unfolding j by (rule zero_less_mult_pos)
  have d: "n div i = j" using j assms(2) by simp
  show "0 < n div i" using d jp by simp
  show "n div i dvd n" using d j by simp
  show "n div (n div i) = i" using d j jp by simp
  show "i * (n div i) = n" using d j by simp
qed

lemma reached_step_dvd:
  assumes n: "0 < n" and k: "0 \<le> k" and sq: "(k + 1) * (k + 1) \<le> n" and dv: "(k + 1) dvd n"
  shows "reached n (k + 1) = reached n k \<union> {k + 1, n div (k + 1)}"
    and "k + 1 \<notin> reached n k" and "n div (k + 1) \<notin> reached n k"
proof -
  let ?i = "k + 1"
  let ?j = "n div ?i"
  have ip: "0 < ?i" using k by simp
  note cf = cofactor[OF n ip dv]
  have ji: "?i \<le> ?j"
  proof (rule ccontr)
    assume "\<not> ?i \<le> ?j"
    then have "?j \<le> k" by simp
    then have "?i * ?j \<le> ?i * k" using ip by (intro mult_left_mono) simp_all
    also have "\<dots> < ?i * ?i" using ip by (intro mult_strict_left_mono) simp_all
    finally show False using cf(4) sq by simp
  qed
  show "k + 1 \<notin> reached n k" using ji by (simp add: reached_def)
  show "n div (k + 1) \<notin> reached n k" using ji cf(3) by (simp add: reached_def)
  show "reached n (k + 1) = reached n k \<union> {k + 1, n div (k + 1)}"
  proof (intro set_eqI iffI)
    fix d assume "d \<in> reached n (k + 1)"
    then have d: "0 < d" "d dvd n" "d \<le> k + 1 \<or> n div d \<le> k + 1" by (auto simp: reached_def)
    show "d \<in> reached n k \<union> {k + 1, n div (k + 1)}"
    proof (cases "d \<le> k \<or> n div d \<le> k")
      case True
      with d show ?thesis by (simp add: reached_def)
    next
      case False
      with d(3) have "d = k + 1 \<or> n div d = k + 1" by linarith
      then show ?thesis
      proof
        assume "d = k + 1" then show ?thesis by simp
      next
        assume "n div d = k + 1"
        then have "n div (k + 1) = d" using cofactor(3)[OF n d(1,2)] by simp
        then show ?thesis by simp
      qed
    qed
  next
    fix d assume "d \<in> reached n k \<union> {k + 1, n div (k + 1)}"
    then consider "d \<in> reached n k" | "d = k + 1" | "d = n div (k + 1)" by blast
    then show "d \<in> reached n (k + 1)"
    proof cases
      case 1
      then show ?thesis by (auto simp: reached_def)
    next
      case 2
      then show ?thesis using ip dv by (simp add: reached_def)
    next
      case 3
      then show ?thesis using cf by (simp add: reached_def)
    qed
  qed
qed

lemma reached_step_not_dvd:
  assumes n: "0 < n" and k: "0 \<le> k" and dv: "\<not> (k + 1) dvd n"
  shows "reached n (k + 1) = reached n k"
proof (intro set_eqI iffI)
  fix d assume "d \<in> reached n (k + 1)"
  then have d: "0 < d" "d dvd n" "d \<le> k + 1 \<or> n div d \<le> k + 1" by (auto simp: reached_def)
  have "d \<noteq> k + 1" using d(2) dv by blast
  moreover have "n div d \<noteq> k + 1" using cofactor(2)[OF n d(1,2)] dv by auto
  ultimately have "d \<le> k \<or> n div d \<le> k" using d(3) by linarith
  with d show "d \<in> reached n k" by (simp add: reached_def)
next
  fix d assume "d \<in> reached n k"
  then show "d \<in> reached n (k + 1)" by (auto simp: reached_def)
qed

lemma reached_zero: "0 < n \<Longrightarrow> reached n 0 = {}"
proof -
  assume n: "0 < n"
  have "\<not> n div d \<le> 0" if "0 < d" "d dvd n" for d
    using cofactor(1)[OF n that] by simp
  then show ?thesis by (auto simp: reached_def)
qed

lemma reached_all:
  assumes n: "0 < n" and s: "0 \<le> s" and hi: "n < (s + 1) * (s + 1)"
  shows "reached n s = {d. 0 < d \<and> d dvd n}"
proof -
  have "d \<le> s \<or> n div d \<le> s" if d: "0 < d" "d dvd n" for d
  proof (rule ccontr)
    assume "\<not> (d \<le> s \<or> n div d \<le> s)"
    then have a: "s + 1 \<le> d" "s + 1 \<le> n div d" by simp_all
    have "(s + 1) * (s + 1) \<le> d * (n div d)"
      using a s by (intro mult_mono) simp_all
    then show False using cofactor(4)[OF n d] hi by simp
  qed
  then show ?thesis by (auto simp: reached_def)
qed


lemma count_loop_single:
  "count_loop n [i] dc =
     (if n mod i = 0 then
        (if i \<noteq> n div i then increment (n div i) (increment i dc) else increment i dc)
      else dc)"
  by (simp add: Let_def)

lemma count_loop_upto:
  assumes n: "0 < n" and dist: "distinct (map fst dc)"
  shows "int k * int k \<le> n \<Longrightarrow>
     distinct (map fst (count_loop n [1..int k] dc)) \<and>
     fst ` set (count_loop n [1..int k] dc) = fst ` set dc \<union> reached n (int k) \<and>
     (\<forall>d. count_of (count_loop n [1..int k] dc) d =
          count_of dc d + (if d \<in> reached n (int k) then 1 else 0))"
proof (induction k)
  case 0
  show ?case using dist reached_zero[OF n] by simp
next
  case (Suc k)
  let ?i = "int k + 1"
  let ?j = "n div ?i"
  let ?dc1 = "count_loop n [1..int k] dc"
  have isq: "?i * ?i \<le> n" using Suc.prems by (simp add: algebra_simps)
  have "int k * int k \<le> ?i * ?i" by (intro mult_mono) simp_all
  with isq have "int k * int k \<le> n" by linarith
  from Suc.IH[OF this] have
    d1: "distinct (map fst ?dc1)" and
    k1: "fst ` set ?dc1 = fst ` set dc \<union> reached n (int k)" and
    c1: "\<And>d. count_of ?dc1 d = count_of dc d + (if d \<in> reached n (int k) then 1 else 0)"
    by blast+
  have "[1..?i] = [1..?i - 1] @ [?i]" by (rule upto_rec2) simp
  then have up: "[1..?i] = [1..int k] @ [?i]" by simp
  have loop: "count_loop n [1..?i] dc = count_loop n [?i] ?dc1"
    unfolding up by (rule count_loop_append)
  have isuc: "int (Suc k) = ?i" by simp
  have k0: "0 \<le> int k" by simp
  show ?case
  proof (cases "?i dvd n")
    case False
    then have "n mod ?i \<noteq> 0" by (simp add: dvd_eq_mod_eq_0)
    then have "count_loop n [?i] ?dc1 = ?dc1" unfolding count_loop_single by simp
    with loop have e: "count_loop n [1..?i] dc = ?dc1" by simp
    show ?thesis unfolding isuc e reached_step_not_dvd[OF n k0 False]
      using d1 k1 c1 by blast
  next
    case True
    then have m: "n mod ?i = 0" by (simp add: dvd_eq_mod_eq_0)
    note rs = reached_step_dvd[OF n k0 isq True]
    show ?thesis
    proof (cases "?i = ?j")
      case True
      have "count_loop n [?i] ?dc1 = increment ?i ?dc1"
        unfolding count_loop_single using m True by simp
      with loop have e: "count_loop n [1..?i] dc = increment ?i ?dc1" by simp
      have r: "reached n ?i = insert ?i (reached n (int k))" using rs(1) True by simp
      show ?thesis unfolding isuc e r
        using d1 k1 c1 rs(2) by (auto simp: count_of_increment keys_increment distinct_increment)
    next
      case False
      have "count_loop n [?i] ?dc1 = increment ?j (increment ?i ?dc1)"
        unfolding count_loop_single using m False by simp
      with loop have e: "count_loop n [1..?i] dc = increment ?j (increment ?i ?dc1)"
        by simp
      have r: "reached n ?i = insert ?j (insert ?i (reached n (int k)))" using rs(1) by auto
      show ?thesis unfolding isuc e r
        using d1 k1 c1 rs(2,3) False
        by (auto simp: count_of_increment keys_increment distinct_increment)
    qed
  qed
qed

lemma count_divisors_result:
  assumes n: "0 < n" and dist: "distinct (map fst dc)"
  shows "\<exists>dc'. count_divisors n dc = Inr dc' \<and> distinct (map fst dc') \<and>
     fst ` set dc' = fst ` set dc \<union> {d. 0 < d \<and> d dvd n} \<and>
     (\<forall>d. count_of dc' d = count_of dc d + (if 0 < d \<and> d dvd n then 1 else 0))"
proof -
  define k where "k = floor_sqrt (nat n)"
  have b: "k * k \<le> nat n" "nat n < (k + 1) * (k + 1)"
    using floor_sqrt_bounds[of "nat n"] by (simp_all add: k_def)
  have "int (k * k) \<le> int (nat n)" using b(1) by (simp only: of_nat_le_iff)
  then have lo: "int k * int k \<le> n" using n by simp
  have "int (nat n) < int ((k + 1) * (k + 1))" using b(2) by (simp only: of_nat_less_iff)
  moreover have "int ((k + 1) * (k + 1)) = (int k + 1) * (int k + 1)"
    by (simp only: of_nat_mult of_nat_add of_nat_1)
  moreover have "int (nat n) = n" using n by simp
  ultimately have hi: "n < (int k + 1) * (int k + 1)" by simp
  have all: "reached n (int k) = {d. 0 < d \<and> d dvd n}"
    by (rule reached_all[OF n _ hi]) simp
  have r: "count_divisors n dc = Inr (count_loop n [1..int k] dc)"
    using n by (simp add: count_divisors_def int_sqrt_def k_def)
  from count_loop_upto[OF n dist lo] show ?thesis unfolding r all by auto
qed

lemma build_loop_result:
  assumes "\<forall>n \<in> set numbers. 0 < n" and "distinct (map fst dc)"
  shows "\<exists>dc'. build_loop numbers dc = Inr dc' \<and> distinct (map fst dc') \<and>
     fst ` set dc' = fst ` set dc \<union> {d. 0 < d \<and> (\<exists>n \<in> set numbers. d dvd n)} \<and>
     (\<forall>d. count_of dc' d =
          count_of dc d + int (length (filter (\<lambda>n. 0 < d \<and> d dvd n) numbers)))"
  using assms
proof (induction numbers arbitrary: dc)
  case Nil
  then show ?case by simp
next
  case (Cons n numbers)
  have n: "0 < n" using Cons.prems(1) by simp
  from count_divisors_result[OF n Cons.prems(2)] obtain dc1 where
    a1: "count_divisors n dc = Inr dc1 \<and> distinct (map fst dc1) \<and>
       fst ` set dc1 = fst ` set dc \<union> {d. 0 < d \<and> d dvd n} \<and>
       (\<forall>d. count_of dc1 d = count_of dc d + (if 0 < d \<and> d dvd n then 1 else 0))" ..
  have r1: "count_divisors n dc = Inr dc1" and d1: "distinct (map fst dc1)" and
    k1: "fst ` set dc1 = fst ` set dc \<union> {d. 0 < d \<and> d dvd n}" and
    c1: "\<And>d. count_of dc1 d = count_of dc d + (if 0 < d \<and> d dvd n then 1 else 0)"
    using a1 by blast+
  have "\<forall>n \<in> set numbers. 0 < n" using Cons.prems(1) by simp
  from Cons.IH[OF this d1] obtain dc' where
    a: "build_loop numbers dc1 = Inr dc' \<and> distinct (map fst dc') \<and>
       fst ` set dc' = fst ` set dc1 \<union> {d. 0 < d \<and> (\<exists>n \<in> set numbers. d dvd n)} \<and>
       (\<forall>d. count_of dc' d =
          count_of dc1 d + int (length (filter (\<lambda>n. 0 < d \<and> d dvd n) numbers)))" ..
  have r: "build_loop numbers dc1 = Inr dc'" and d: "distinct (map fst dc')" and
    k: "fst ` set dc' = fst ` set dc1 \<union> {d. 0 < d \<and> (\<exists>n \<in> set numbers. d dvd n)}" and
    c: "\<And>d. count_of dc' d =
          count_of dc1 d + int (length (filter (\<lambda>n. 0 < d \<and> d dvd n) numbers))"
    using a by blast+
  have "build_loop (n # numbers) dc = Inr dc'" using r1 r by simp
  moreover have "fst ` set dc' =
      fst ` set dc \<union> {d. 0 < d \<and> (\<exists>m \<in> set (n # numbers). d dvd m)}"
    unfolding k k1 by auto
  moreover have "\<forall>d. count_of dc' d =
      count_of dc d + int (length (filter (\<lambda>m. 0 < d \<and> d dvd m) (n # numbers)))"
    unfolding c c1 by simp
  ultimately show ?case using d by blast
qed

text \<open>
  C5: for candidates from 1 up to \<open>10 ^ 9\<close> (exclusive), \<open>build_divisor_counts\<close> returns a
  dictionary (no key twice) that has a key for every positive divisor of every candidate,
  and whose value at each key \<open>d\<close> is the number of candidates \<open>n\<close> of the list with
  \<open>n % d == 0\<close>.
\<close>

theorem build_divisor_counts_exact:
  assumes "\<forall>n \<in> set numbers. 0 < n \<and> n < 10 ^ 9"
  shows "\<exists>dc. build_divisor_counts numbers = Inr dc \<and> distinct (map fst dc) \<and>
     (\<forall>n \<in> set numbers. \<forall>d. 0 < d \<and> d dvd n \<longrightarrow> d \<in> fst ` set dc) \<and>
     (\<forall>(d, c) \<in> set dc. c = int (length (filter (\<lambda>n. n mod d = 0) numbers)))"
proof -
  have pos: "\<forall>n \<in> set numbers. 0 < n" using assms by blast
  have "distinct (map fst ([]::divisor_dict))" by simp
  from build_loop_result[OF pos this] obtain dc where
    r: "build_divisor_counts numbers = Inr dc" and d: "distinct (map fst dc)" and
    k: "fst ` set dc = {d. 0 < d \<and> (\<exists>n \<in> set numbers. d dvd n)}" and
    c: "\<And>d. count_of dc d = int (length (filter (\<lambda>n. 0 < d \<and> d dvd n) numbers))"
    unfolding build_divisor_counts_def by (auto simp: count_of_def)
  have keys: "\<forall>n \<in> set numbers. \<forall>d. 0 < d \<and> d dvd n \<longrightarrow> d \<in> fst ` set dc"
    unfolding k by blast
  have vals: "\<forall>(d, c) \<in> set dc. c = int (length (filter (\<lambda>n. n mod d = 0) numbers))"
  proof (intro ballI, clarify)
    fix d v assume m: "(d, v) \<in> set dc"
    then have "d \<in> fst ` set dc" by force
    then have dp: "0 < d" unfolding k by blast
    have "map_of dc d = Some v" using d m by simp
    then have "count_of dc d = v" by (simp add: count_of_def)
    then have "v = int (length (filter (\<lambda>n. 0 < d \<and> d dvd n) numbers))" using c by simp
    also have "(\<lambda>n. 0 < d \<and> d dvd n) = (\<lambda>n. n mod d = 0)"
      using dp by (auto simp: dvd_eq_mod_eq_0)
    finally show "v = int (length (filter (\<lambda>n. n mod d = 0) numbers))" .
  qed
  from r d keys vals show ?thesis by blast
qed

theorem build_divisor_counts_exact_witness:
  "build_divisor_counts [12, 24, 36] =
     Inr [(1, 3), (12, 3), (2, 3), (6, 3), (3, 3), (4, 3), (24, 1), (8, 1), (36, 1), (18, 1), (9, 1)] \<and>
   (\<exists>dc. build_divisor_counts [12, 24, 36] = Inr dc \<and> distinct (map fst dc) \<and>
     (\<forall>n \<in> set [12, 24, 36]. \<forall>d. 0 < d \<and> d dvd n \<longrightarrow> d \<in> fst ` set dc) \<and>
     (\<forall>(d, c) \<in> set dc. c = int (length (filter (\<lambda>n. n mod d = 0) [12, 24, 36]))))"
proof -
  have h: "\<forall>n \<in> set [12, 24, 36]. 0 < n \<and> n < (10::int) ^ 9" by simp
  have s: "floor_sqrt 12 = 3" "floor_sqrt 24 = 4" "floor_sqrt 36 = 6"
    by (simp_all add: floor_sqrt.simps)
  have e: "build_divisor_counts [12, 24, 36] =
     Inr [(1, 3), (12, 3), (2, 3), (6, 3), (3, 3), (4, 3), (24, 1), (8, 1), (36, 1), (18, 1), (9, 1)]"
    by (simp add: build_divisor_counts_def count_divisors_def int_sqrt_def s
        increment_def count_of_def Let_def upto.simps)
  show ?thesis by (intro conjI e build_divisor_counts_exact[OF h])
qed

section \<open>Order of the divisors analyzed\<close>

lemma count_loop_distinct:
  "distinct (map fst dc) \<Longrightarrow> distinct (map fst (count_loop n xs dc))"
  by (induction xs arbitrary: dc) (simp_all add: Let_def distinct_increment)

lemma build_loop_distinct:
  "build_loop numbers dc = Inr dc' \<Longrightarrow> distinct (map fst dc) \<Longrightarrow> distinct (map fst dc')"
proof (induction numbers arbitrary: dc)
  case Nil
  then show ?case by simp
next
  case (Cons n numbers)
  from Cons.prems(1) obtain dc1 where
    c: "count_divisors n dc = Inr dc1" and r: "build_loop numbers dc1 = Inr dc'"
    by (cases "count_divisors n dc") simp_all
  from c have "distinct (map fst dc1)"
    using Cons.prems(2) by (auto simp: count_divisors_def count_loop_distinct split: sum.splits)
  with Cons.IH[OF r] show ?case .
qed

lemma sorted_items_descending:
  assumes "distinct (map fst dc)"
  shows "sorted_wrt (>) (map fst (sorted_items dc))"
proof -
  have "sorted (sort dc)" by simp
  then have "sorted_wrt (\<lambda>x y. fst x \<le> fst y) (sort dc)"
    by (rule sorted_wrt_mono_rel[rotated]) (auto simp: less_eq_prod_def)
  then have s: "sorted (map fst (sort dc))" by (simp add: sorted_wrt_map)
  have "distinct (map fst (sort dc))" using assms by (simp add: distinct_map)
  with s have "sorted_wrt (<) (map fst (sort dc))" by (simp add: strict_sorted_iff)
  then show ?thesis by (simp add: sorted_items_def rev_map[symmetric] sorted_wrt_rev)
qed

lemma main_loop_calls:
  "main_loop numbers symbols items = Inr calls \<Longrightarrow>
     map fst calls = take (length calls) (map fst (filter (\<lambda>(d, c). 9 \<le> c) items)) \<and>
     (\<forall>i. Suc i < length calls \<longrightarrow> \<not> snd (calls ! i)) \<and>
     (length calls < length (filter (\<lambda>(d, c). 9 \<le> c) items) \<longrightarrow> calls \<noteq> [] \<and> snd (last calls)) \<and>
     (\<forall>(d, ok) \<in> set calls. \<exists>c. (d, c) \<in> set items \<and> 9 \<le> c \<and>
         analyze_divisor d c numbers symbols = Inr ok)"
proof (induction items arbitrary: calls)
  case Nil
  then show ?case by simp
next
  case (Cons item items)
  obtain d c where item: "item = (d, c)" by (cases item)
  show ?case
  proof (cases "9 \<le> c")
    case False
    then have "main_loop numbers symbols items = Inr calls" using Cons.prems item by simp
    from Cons.IH[OF this] show ?thesis using False item by auto
  next
    case True
    note c9 = True
    show ?thesis
    proof (cases "analyze_divisor d c numbers symbols")
      case (Inl e)
      then show ?thesis using Cons.prems item c9 by simp
    next
      case (Inr ok)
      show ?thesis
      proof (cases ok)
        case True
        then have "calls = [(d, True)]" using Cons.prems item c9 Inr by simp
        then show ?thesis using item c9 Inr True by (auto intro: exI[of _ c])
      next
        case False
        then obtain calls' where
          r: "main_loop numbers symbols items = Inr calls'" and
          cs: "calls = (d, False) # calls'"
          using Cons.prems item c9 Inr
          by (cases "main_loop numbers symbols items") auto
        from Cons.IH[OF r] have
          a: "map fst calls' = take (length calls') (map fst (filter (\<lambda>(d, c). 9 \<le> c) items))" and
          b: "\<forall>i. Suc i < length calls' \<longrightarrow> \<not> snd (calls' ! i)" and
          l: "length calls' < length (filter (\<lambda>(d, c). 9 \<le> c) items) \<longrightarrow>
                calls' \<noteq> [] \<and> snd (last calls')" and
          e: "\<forall>(d, ok) \<in> set calls'. \<exists>c. (d, c) \<in> set items \<and> 9 \<le> c \<and>
                analyze_divisor d c numbers symbols = Inr ok"
          by blast+
        have 1: "map fst calls = take (length calls) (map fst (filter (\<lambda>(d, c). 9 \<le> c) (item # items)))"
          using a cs item c9 by simp
        have 2: "\<forall>i. Suc i < length calls \<longrightarrow> \<not> snd (calls ! i)"
        proof (intro allI impI)
          fix i assume "Suc i < length calls"
          then show "\<not> snd (calls ! i)" using b cs by (cases i) simp_all
        qed
        have 3: "length calls < length (filter (\<lambda>(d, c). 9 \<le> c) (item # items)) \<longrightarrow>
                calls \<noteq> [] \<and> snd (last calls)"
          using l cs item c9 by auto
        have 4: "\<forall>(d, ok) \<in> set calls. \<exists>c. (d, c) \<in> set (item # items) \<and> 9 \<le> c \<and>
                analyze_divisor d c numbers symbols = Inr ok"
          using e cs item c9 Inr False by auto
        from 1 2 3 4 show ?thesis by blast
      qed
    qed
  qed
qed

text \<open>
  C7: the calls of \<open>analyze_divisor\<close> made by the loop of \<open>main\<close> are in strictly descending
  order of the divisor; each is for a divisor whose count in the dictionary is at least 9;
  they follow the qualifying divisors in descending order without a gap; no call before the
  last one found a grid, and the loop stops short of the qualifying divisors only after a
  call that found one.
\<close>

theorem main_search_order:
  assumes "main_search numbers symbols = Inr calls"
  shows "\<exists>dc. build_divisor_counts numbers = Inr dc \<and>
     sorted_wrt (>) (map fst calls) \<and>
     (\<forall>(d, ok) \<in> set calls. \<exists>c. (d, c) \<in> set dc \<and> 9 \<le> c \<and>
         analyze_divisor d c numbers symbols = Inr ok) \<and>
     (\<forall>i. Suc i < length calls \<longrightarrow> \<not> snd (calls ! i)) \<and>
     map fst calls =
       take (length calls) (map fst (filter (\<lambda>(d, c). 9 \<le> c) (sorted_items dc))) \<and>
     (length calls < length (filter (\<lambda>(d, c). 9 \<le> c) (sorted_items dc)) \<longrightarrow>
        calls \<noteq> [] \<and> snd (last calls))"
proof -
  from assms obtain dc where
    b: "build_divisor_counts numbers = Inr dc" and
    m: "main_loop numbers symbols (sorted_items dc) = Inr calls"
    by (cases "build_divisor_counts numbers") (simp_all add: main_search_def)
  have "distinct (map fst dc)"
    using b build_loop_distinct[of numbers "[]" dc] by (simp add: build_divisor_counts_def)
  then have desc: "sorted_wrt (>) (map fst (sorted_items dc))" by (rule sorted_items_descending)
  note mc = main_loop_calls[OF m]
  let ?q = "map fst (filter (\<lambda>(d, c). 9 \<le> c) (sorted_items dc))"
  have "sorted_wrt (>) ?q"
    using desc by (simp add: sorted_wrt_map sorted_wrt_filter)
  then have "sorted_wrt (>) (take (length calls) ?q)" by (rule sorted_wrt_take)
  then have 1: "sorted_wrt (>) (map fst calls)" using mc by simp
  have 2: "\<forall>(d, ok) \<in> set calls. \<exists>c. (d, c) \<in> set dc \<and> 9 \<le> c \<and>
         analyze_divisor d c numbers symbols = Inr ok"
    using mc by (simp add: sorted_items_def)
  from b 1 2 mc show ?thesis by blast
qed

theorem main_search_order_witness:
  "main_search [2, 2, 2, 2, 2, 2, 2, 2, 2] (set ''012345678'') = Inr [(2, False), (1, False)] \<and>
   (\<exists>dc. build_divisor_counts [2, 2, 2, 2, 2, 2, 2, 2, 2] = Inr dc \<and>
     sorted_wrt (>) (map fst [(2::int, False), (1, False)]) \<and>
     (\<forall>(d, ok) \<in> set [(2, False), (1, False)]. \<exists>c. (d, c) \<in> set dc \<and> 9 \<le> c \<and>
         analyze_divisor d c [2, 2, 2, 2, 2, 2, 2, 2, 2] (set ''012345678'') = Inr ok) \<and>
     (\<forall>i. Suc i < length [(2::int, False), (1, False)] \<longrightarrow> \<not> snd ([(2::int, False), (1, False)] ! i)) \<and>
     map fst [(2::int, False), (1, False)] =
       take (length [(2::int, False), (1, False)]) (map fst (filter (\<lambda>(d, c). 9 \<le> c) (sorted_items dc))) \<and>
     (length [(2::int, False), (1, False)] < length (filter (\<lambda>(d, c). 9 \<le> c) (sorted_items dc)) \<longrightarrow>
        [(2::int, False), (1, False)] \<noteq> [] \<and> snd (last [(2::int, False), (1, False)])))"
proof -
  have s: "floor_sqrt 2 = 1" by (simp add: floor_sqrt.simps)
  have b: "build_divisor_counts [2, 2, 2, 2, 2, 2, 2, 2, 2] = Inr [(1, 9), (2, 9)]"
    by (simp add: build_divisor_counts_def count_divisors_def int_sqrt_def s
        increment_def count_of_def Let_def upto.simps)
  have so: "sorted_items [(1::int, 9::int), (2, 9)] = [(2, 9), (1, 9)]"
    by (simp add: sorted_items_def)
  have f: "format_09 2 = ''000000002''" "format_09 1 = ''000000001''"
    by (simp_all add: format_09_def decimal.simps digit_char_def replicate_numeral)
  have a2: "analyze_divisor 2 9 [2, 2, 2, 2, 2, 2, 2, 2, 2] (set ''012345678'') = Inr False"
    by (simp add: analyze_divisor_def find_numbers_with_divisor_def f check_digit_positions_def
        numeral_eq_Suc)
  have a1: "analyze_divisor 1 9 [2, 2, 2, 2, 2, 2, 2, 2, 2] (set ''012345678'') = Inr False"
    by (simp add: analyze_divisor_def find_numbers_with_divisor_def f check_digit_positions_def
        numeral_eq_Suc)
  have e: "main_search [2, 2, 2, 2, 2, 2, 2, 2, 2] (set ''012345678'') = Inr [(2, False), (1, False)]"
    by (simp only: main_search_def b so main_loop.simps a1 a2 sum.case bool.case
        order_refl if_True)
  show ?thesis by (intro conjI e main_search_order[OF e])
qed

section \<open>Commit and undo\<close>

declare backtrack.simps [simp del]

text \<open>The index of the box of a cell, as every loop of the search computes it.\<close>

definition box_of :: "nat \<Rightarrow> nat \<Rightarrow> nat" where
  "box_of r c = (r div 3) * 3 + c div 3"

lemma check_digits_True:
  "check_digits r col ds cs bs = Inr True \<Longrightarrow> k < length ds \<Longrightarrow>
     col + k < length cs \<and> ds ! k \<notin> cs ! (col + k) \<and>
     box_of r (col + k) < length bs \<and> ds ! k \<notin> bs ! box_of r (col + k)"
proof (induction ds arbitrary: col k)
  case Nil
  then show ?case by simp
next
  case (Cons d ds)
  from Cons.prems(1) have
    h: "col < length cs" "d \<notin> cs ! col" "box_of r col < length bs" "d \<notin> bs ! box_of r col" and
    r: "check_digits r (Suc col) ds cs bs = Inr True"
    by (simp_all add: box_of_def Let_def split: if_splits)
  show ?case
  proof (cases k)
    case 0
    with h show ?thesis by simp
  next
    case (Suc k')
    with Cons.prems(2) have "k' < length ds" by simp
    from Cons.IH[OF r this] Suc show ?thesis by simp
  qed
qed

lemma add_digits_result:
  "add_digits r col ds cs bs = Inr (cs', bs') \<Longrightarrow>
     length cs' = length cs \<and> length bs' = length bs \<and>
     (\<forall>c < length cs. cs' ! c = cs ! c \<union> {d. \<exists>k < length ds. col + k = c \<and> ds ! k = d}) \<and>
     (\<forall>b < length bs. bs' ! b = bs ! b \<union> {d. \<exists>k < length ds. box_of r (col + k) = b \<and> ds ! k = d})"
proof (induction ds arbitrary: col cs bs)
  case Nil
  then show ?case by simp
next
  case (Cons d ds)
  let ?cs1 = "cs[col := insert d (cs ! col)]"
  let ?bs1 = "bs[box_of r col := insert d (bs ! box_of r col)]"
  from Cons.prems have h: "col < length cs" "box_of r col < length bs" and
    r: "add_digits r (Suc col) ds ?cs1 ?bs1 = Inr (cs', bs')"
    by (simp_all add: box_of_def Let_def split: if_splits)
  from Cons.IH[OF r] have
    l: "length cs' = length cs" "length bs' = length bs" and
    c: "\<And>c. c < length cs \<Longrightarrow>
          cs' ! c = ?cs1 ! c \<union> {x. \<exists>k < length ds. Suc col + k = c \<and> ds ! k = x}" and
    b: "\<And>b. b < length bs \<Longrightarrow>
          bs' ! b = ?bs1 ! b \<union> {x. \<exists>k < length ds. box_of r (Suc col + k) = b \<and> ds ! k = x}"
    by simp_all
  have ex: "(\<exists>k < length (d # ds). P k) \<longleftrightarrow> P 0 \<or> (\<exists>k < length ds. P (Suc k))" for P
    by (auto simp: less_Suc_eq_0_disj)
  have "\<forall>c < length cs. cs' ! c = cs ! c \<union> {x. \<exists>k < length (d # ds). col + k = c \<and> (d # ds) ! k = x}"
  proof (intro allI impI)
    fix c assume "c < length cs"
    from c[OF this] this show
      "cs' ! c = cs ! c \<union> {x. \<exists>k < length (d # ds). col + k = c \<and> (d # ds) ! k = x}"
      unfolding ex by (cases "c = col") (auto simp: nth_list_update)
  qed
  moreover
  have "\<forall>b < length bs. bs' ! b =
      bs ! b \<union> {x. \<exists>k < length (d # ds). box_of r (col + k) = b \<and> (d # ds) ! k = x}"
  proof (intro allI impI)
    fix b assume "b < length bs"
    from b[OF this] this show
      "bs' ! b = bs ! b \<union> {x. \<exists>k < length (d # ds). box_of r (col + k) = b \<and> (d # ds) ! k = x}"
      unfolding ex by (cases "b = box_of r col") (auto simp: nth_list_update)
  qed
  ultimately show ?case using l by blast
qed

lemma remove_digits_result:
  "distinct ds \<Longrightarrow>
   (\<forall>k < length ds. col + k < length cs \<and> box_of r (col + k) < length bs \<and>
       ds ! k \<in> cs ! (col + k) \<and> ds ! k \<in> bs ! box_of r (col + k)) \<Longrightarrow>
   \<exists>cs' bs'. remove_digits r col ds cs bs = Inr (cs', bs') \<and>
     length cs' = length cs \<and> length bs' = length bs \<and>
     (\<forall>c < length cs. cs' ! c = cs ! c - {d. \<exists>k < length ds. col + k = c \<and> ds ! k = d}) \<and>
     (\<forall>b < length bs. bs' ! b = bs ! b - {d. \<exists>k < length ds. box_of r (col + k) = b \<and> ds ! k = d})"
proof (induction ds arbitrary: col cs bs)
  case Nil
  then show ?case by simp
next
  case (Cons d ds)
  let ?cs1 = "cs[col := cs ! col - {d}]"
  let ?bs1 = "bs[box_of r col := bs ! box_of r col - {d}]"
  from Cons.prems(2)[rule_format, of 0] have
    h: "col < length cs" "box_of r col < length bs" "d \<in> cs ! col" "d \<in> bs ! box_of r col"
    by simp_all
  have step: "remove_digits r col (d # ds) cs bs = remove_digits r (Suc col) ds ?cs1 ?bs1"
    using h by (simp add: box_of_def Let_def)
  have dd: "distinct ds" "d \<notin> set ds" using Cons.prems(1) by simp_all
  have pre: "\<forall>k < length ds. Suc col + k < length ?cs1 \<and> box_of r (Suc col + k) < length ?bs1 \<and>
       ds ! k \<in> ?cs1 ! (Suc col + k) \<and> ds ! k \<in> ?bs1 ! box_of r (Suc col + k)"
  proof (intro allI impI)
    fix k assume k: "k < length ds"
    from Cons.prems(2)[rule_format, of "Suc k"] k have
      p: "Suc col + k < length cs" "box_of r (Suc col + k) < length bs"
         "ds ! k \<in> cs ! (Suc col + k)" "ds ! k \<in> bs ! box_of r (Suc col + k)"
      by simp_all
    have "ds ! k \<noteq> d" using dd(2) k by (metis nth_mem)
    with p show "Suc col + k < length ?cs1 \<and> box_of r (Suc col + k) < length ?bs1 \<and>
       ds ! k \<in> ?cs1 ! (Suc col + k) \<and> ds ! k \<in> ?bs1 ! box_of r (Suc col + k)"
      using h(2) by (cases "box_of r (Suc col + k) = box_of r col") (simp_all add: nth_list_update)
  qed
  from Cons.IH[OF dd(1) pre] obtain cs' bs' where
    r: "remove_digits r (Suc col) ds ?cs1 ?bs1 = Inr (cs', bs')" and
    l: "length cs' = length cs" "length bs' = length bs" and
    c: "\<And>c. c < length cs \<Longrightarrow>
          cs' ! c = ?cs1 ! c - {x. \<exists>k < length ds. Suc col + k = c \<and> ds ! k = x}" and
    b: "\<And>b. b < length bs \<Longrightarrow>
          bs' ! b = ?bs1 ! b - {x. \<exists>k < length ds. box_of r (Suc col + k) = b \<and> ds ! k = x}"
    by auto
  have ex: "(\<exists>k < length (d # ds). P k) \<longleftrightarrow> P 0 \<or> (\<exists>k < length ds. P (Suc k))" for P
    by (auto simp: less_Suc_eq_0_disj)
  have "\<forall>c < length cs. cs' ! c = cs ! c - {x. \<exists>k < length (d # ds). col + k = c \<and> (d # ds) ! k = x}"
  proof (intro allI impI)
    fix c assume "c < length cs"
    from c[OF this] this show
      "cs' ! c = cs ! c - {x. \<exists>k < length (d # ds). col + k = c \<and> (d # ds) ! k = x}"
      unfolding ex by (cases "c = col") (auto simp: nth_list_update)
  qed
  moreover
  have "\<forall>b < length bs. bs' ! b =
      bs ! b - {x. \<exists>k < length (d # ds). box_of r (col + k) = b \<and> (d # ds) ! k = x}"
  proof (intro allI impI)
    fix b assume "b < length bs"
    from b[OF this] this show
      "bs' ! b = bs ! b - {x. \<exists>k < length (d # ds). box_of r (col + k) = b \<and> (d # ds) ! k = x}"
      unfolding ex by (cases "b = box_of r col") (auto simp: nth_list_update)
  qed
  ultimately show ?case using step r l by simp
qed

lemma remove_after_add:
  assumes chk: "check_digits r 0 num cs bs = Inr True" and dist: "distinct num"
    and add: "add_digits r 0 num cs bs = Inr (cs', bs')"
  shows "remove_digits r 0 num cs' bs' = Inr (cs, bs)"
proof -
  note ck = check_digits_True[OF chk, simplified]
  from add_digits_result[OF add] have
    l: "length cs' = length cs" "length bs' = length bs" and
    c: "\<And>c. c < length cs \<Longrightarrow> cs' ! c = cs ! c \<union> {d. \<exists>k < length num. k = c \<and> num ! k = d}" and
    b: "\<And>b. b < length bs \<Longrightarrow>
          bs' ! b = bs ! b \<union> {d. \<exists>k < length num. box_of r k = b \<and> num ! k = d}"
    by simp_all
  have pre: "\<forall>k < length num. 0 + k < length cs' \<and> box_of r (0 + k) < length bs' \<and>
       num ! k \<in> cs' ! (0 + k) \<and> num ! k \<in> bs' ! box_of r (0 + k)"
  proof (intro allI impI)
    fix k assume k: "k < length num"
    from ck[OF k] have kk: "k < length cs" "box_of r k < length bs" by simp_all
    from c[OF kk(1)] b[OF kk(2)] k kk l
    show "0 + k < length cs' \<and> box_of r (0 + k) < length bs' \<and>
       num ! k \<in> cs' ! (0 + k) \<and> num ! k \<in> bs' ! box_of r (0 + k)" by auto
  qed
  from remove_digits_result[OF dist pre] obtain cs2 bs2 where
    r: "remove_digits r 0 num cs' bs' = Inr (cs2, bs2)" and
    l2: "length cs2 = length cs'" "length bs2 = length bs'" and
    c2: "\<And>c. c < length cs' \<Longrightarrow> cs2 ! c = cs' ! c - {d. \<exists>k < length num. k = c \<and> num ! k = d}" and
    b2: "\<And>b. b < length bs' \<Longrightarrow>
          bs2 ! b = bs' ! b - {d. \<exists>k < length num. box_of r k = b \<and> num ! k = d}"
    by auto
  have "cs2 = cs"
  proof (rule nth_equalityI)
    show "length cs2 = length cs" using l l2 by simp
    fix i assume "i < length cs2"
    then have i: "i < length cs" using l l2 by simp
    have "cs ! i \<inter> {d. \<exists>k < length num. k = i \<and> num ! k = d} = {}" using ck by auto
    then show "cs2 ! i = cs ! i" using c2[of i] c[OF i] i l by auto
  qed
  moreover have "bs2 = bs"
  proof (rule nth_equalityI)
    show "length bs2 = length bs" using l l2 by simp
    fix i assume "i < length bs2"
    then have i: "i < length bs" using l l2 by simp
    have "bs ! i \<inter> {d. \<exists>k < length num. box_of r k = i \<and> num ! k = d} = {}" using ck by auto
    then show "bs2 ! i = bs ! i" using b2[of i] b[OF i] i l by auto
  qed
  ultimately show ?thesis using r by simp
qed

lemma undo_after_commit:
  assumes "check_digits r 0 num (column_sets st) (box_sets st) = Inr True" and "distinct num"
    and "num \<notin> used_numbers st" and "commit r num st = Inr st1"
  shows "undo r num st1 = Inr st"
proof -
  from assms(4) obtain cs' bs' where
    a: "add_digits r 0 num (column_sets st) (box_sets st) = Inr (cs', bs')" and
    s: "st1 = \<lparr>grid = grid st @ [num], used_numbers = insert num (used_numbers st),
               column_sets = cs', box_sets = bs'\<rparr>"
    by (auto simp: commit_def split: sum.splits prod.splits)
  from remove_after_add[OF assms(1,2) a] assms(3) show ?thesis
    by (simp add: undo_def s)
qed

section \<open>A failed attempt leaves the search state as it was\<close>

lemma try_candidates_Cons_cases:
  assumes "try_candidates V r (num # rest) st = Inr (res, st')"
  obtains
    (skip) "num \<in> used_numbers st \<or>
            check_digits r 0 num (column_sets st) (box_sets st) = Inr False"
           "try_candidates V r rest st = Inr (res, st')"
  | (found) st1 g where "num \<notin> used_numbers st"
           "check_digits r 0 num (column_sets st) (box_sets st) = Inr True"
           "commit r num st = Inr st1" "backtrack V st1 = Inr (Some g, st')" "res = Some g"
  | (retry) st1 st2 st3 where "num \<notin> used_numbers st"
           "check_digits r 0 num (column_sets st) (box_sets st) = Inr True"
           "commit r num st = Inr st1" "backtrack V st1 = Inr (None, st2)"
           "undo r num st2 = Inr st3" "try_candidates V r rest st3 = Inr (res, st')"
proof (cases "num \<in> used_numbers st")
  case True
  with assms skip show ?thesis by simp
next
  case nu: False
  show ?thesis
  proof (cases "check_digits r 0 num (column_sets st) (box_sets st)")
    case (Inl e)
    with assms nu show ?thesis by simp
  next
    case (Inr ok)
    show ?thesis
    proof (cases ok)
      case False
      with assms nu Inr skip show ?thesis by simp
    next
      case True
      with Inr have ck: "check_digits r 0 num (column_sets st) (box_sets st) = Inr True" by simp
      show ?thesis
      proof (cases "commit r num st")
        case (Inl e)
        with assms nu ck show ?thesis by simp
      next
        case c: (Inr st1)
        show ?thesis
        proof (cases "backtrack V st1")
          case (Inl e)
          with assms nu ck c show ?thesis by simp
        next
          case (Inr p)
          obtain ro st2 where p: "p = (ro, st2)" by (cases p)
          show ?thesis
          proof (cases ro)
            case (Some g)
            with Inr p have b: "backtrack V st1 = Inr (Some g, st2)" by simp
            with assms nu ck c have "res = Some g" "st' = st2" by simp_all
            with b found[OF nu ck c] show ?thesis by simp
          next
            case None
            with Inr p have b: "backtrack V st1 = Inr (None, st2)" by simp
            show ?thesis
            proof (cases "undo r num st2")
              case (Inl e)
              with assms nu ck c b show ?thesis by simp
            next
              case u: (Inr st3)
              with assms nu ck c b have "try_candidates V r rest st3 = Inr (res, st')" by simp
              with nu ck c b u retry show ?thesis by blast
            qed
          qed
        qed
      qed
    qed
  qed
qed

text \<open>Every candidate of every row has no digit twice.\<close>

definition distinct_rows :: "row_dict \<Rightarrow> bool" where
  "distinct_rows V = list_all (\<lambda>(r, xs). list_all distinct xs) V"

lemma distinct_rows_row_get: "distinct_rows V \<Longrightarrow> num \<in> set (row_get V r) \<Longrightarrow> distinct num"
proof -
  assume d: "distinct_rows V" and m: "num \<in> set (row_get V r)"
  then obtain xs where "map_of V r = Some xs" "num \<in> set xs"
    by (cases "map_of V r") (auto simp: row_get_def)
  then have "(r, xs) \<in> set V" "num \<in> set xs" by (auto dest: map_of_SomeD)
  with d show "distinct num" unfolding distinct_rows_def list_all_iff by blast
qed

lemma failure_restores:
  "backtrack V st = Inr (None, st') \<Longrightarrow> distinct_rows V \<Longrightarrow> st' = st"
  "try_candidates V r cands st = Inr (None, st') \<Longrightarrow> distinct_rows V \<Longrightarrow>
     \<forall>num \<in> set cands. distinct num \<Longrightarrow> st' = st"
proof (induction V st and V r cands st arbitrary: st' and st' rule: backtrack_try_candidates.induct)
  case (1 V st)
  show ?case
  proof (cases "length (grid st) = 9")
    case True
    with "1.prems" show ?thesis by (simp add: backtrack.simps)
  next
    case False
    with "1.prems" have "try_candidates V (length (grid st)) (row_get V (length (grid st))) st
        = Inr (None, st')" by (simp add: backtrack.simps)
    moreover have "\<forall>num \<in> set (row_get V (length (grid st))). distinct num"
      using "1.prems"(2) distinct_rows_row_get by blast
    ultimately show ?thesis using "1.IH"[OF False] "1.prems"(2) by blast
  qed
next
  case (2 V row_idx st)
  then show ?case by simp
next
  case (3 V row_idx num rest st)
  have dn: "distinct num" and dr: "\<forall>n \<in> set rest. distinct n" using "3.prems"(3) by simp_all
  from "3.prems"(1) show ?case
  proof (cases rule: try_candidates_Cons_cases)
    case skip
    from skip(1) show ?thesis
    proof
      assume u: "num \<in> used_numbers st"
      from "3.IH"(1)[OF u skip(2) "3.prems"(2) dr] show ?thesis .
    next
      assume c: "check_digits row_idx 0 num (column_sets st) (box_sets st) = Inr False"
      show ?thesis
      proof (cases "num \<in> used_numbers st")
        case True
        from "3.IH"(1)[OF True skip(2) "3.prems"(2) dr] show ?thesis .
      next
        case False
        from "3.IH"(4)[OF False c refl skip(2) "3.prems"(2) dr] show ?thesis .
      qed
    qed
  next
    case (found st1 g)
    then show ?thesis by simp
  next
    case (retry st1 st2 st3)
    have "st2 = st1"
      using "3.IH"(2)[OF retry(1,2) refl retry(3,4) "3.prems"(2)] .
    with retry(5) have "undo row_idx num st1 = Inr st3" by simp
    with undo_after_commit[OF retry(2) dn retry(1,3)] have s3: "st3 = st" by simp
    have "backtrack V st1 = Inr (None, st2)" by (rule retry(4))
    from "3.IH"(3)[OF retry(1,2) refl retry(3) this refl refl retry(5) retry(6) "3.prems"(2) dr]
    show ?thesis using s3 by simp
  qed
qed

text \<open>
  C6: when every candidate is a string of 9 distinct digits, a candidate that passes the
  checks in some state is committed, and the recursive call fails, then the undo step
  returns exactly the state before the commit: the same grid, used-number set, column sets
  and box sets. The loop goes on with the remaining candidates from that state.
\<close>

theorem backtrack_undo_restores:
  assumes "list_all (\<lambda>(r, xs). list_all (\<lambda>n. length n = 9 \<and> distinct n) xs) V"
    and "length num = 9" and "distinct num"
    and "num \<notin> used_numbers st"
    and "check_digits row_idx 0 num (column_sets st) (box_sets st) = Inr True"
    and "commit row_idx num st = Inr st1"
    and "backtrack V st1 = Inr (None, st2)"
  shows "undo row_idx num st2 = Inr st \<and>
         try_candidates V row_idx (num # rest) st = try_candidates V row_idx rest st"
proof -
  have "distinct_rows V"
    using assms(1) unfolding distinct_rows_def list_all_iff by blast
  from failure_restores(1)[OF assms(7) this] have "st2 = st1" .
  with undo_after_commit[OF assms(5,3,4,6)] have u: "undo row_idx num st2 = Inr st" by simp
  with assms(4,5,6,7) show ?thesis by simp
qed

theorem backtrack_undo_restores_witness:
  "commit 0 ''395061728'' initial_state =
     Inr \<lparr>grid = [''395061728''], used_numbers = {''395061728''},
          column_sets = [{CHR ''3''}, {CHR ''9''}, {CHR ''5''}, {CHR ''0''}, {CHR ''6''},
                         {CHR ''1''}, {CHR ''7''}, {CHR ''2''}, {CHR ''8''}],
          box_sets = [{CHR ''5'', CHR ''9'', CHR ''3''}, {CHR ''1'', CHR ''6'', CHR ''0''},
                      {CHR ''8'', CHR ''2'', CHR ''7''}, {}, {}, {}, {}, {}, {}]\<rparr> \<and>
   undo 0 ''395061728''
     \<lparr>grid = [''395061728''], used_numbers = {''395061728''},
      column_sets = [{CHR ''3''}, {CHR ''9''}, {CHR ''5''}, {CHR ''0''}, {CHR ''6''},
                     {CHR ''1''}, {CHR ''7''}, {CHR ''2''}, {CHR ''8''}],
      box_sets = [{CHR ''5'', CHR ''9'', CHR ''3''}, {CHR ''1'', CHR ''6'', CHR ''0''},
                  {CHR ''8'', CHR ''2'', CHR ''7''}, {}, {}, {}, {}, {}, {}]\<rparr> = Inr initial_state \<and>
   try_candidates [(0, [''395061728''])] 0 [''395061728''] initial_state =
     try_candidates [(0, [''395061728''])] 0 [] initial_state"
proof -
  let ?num = "''395061728''"
  let ?V = "[(0::nat, [?num])]"
  let ?st1 = "\<lparr>grid = [?num], used_numbers = {?num},
      column_sets = [{CHR ''3''}, {CHR ''9''}, {CHR ''5''}, {CHR ''0''}, {CHR ''6''},
                     {CHR ''1''}, {CHR ''7''}, {CHR ''2''}, {CHR ''8''}],
      box_sets = [{CHR ''5'', CHR ''9'', CHR ''3''}, {CHR ''1'', CHR ''6'', CHR ''0''},
                  {CHR ''8'', CHR ''2'', CHR ''7''}, {}, {}, {}, {}, {}, {}]\<rparr>"
  have 1: "list_all (\<lambda>(r, xs). list_all (\<lambda>n. length n = 9 \<and> distinct n) xs) ?V" by simp
  have 2: "length ?num = 9" by simp
  have 3: "distinct ?num" by simp
  have 4: "?num \<notin> used_numbers initial_state" by (simp add: initial_state_def)
  have 5: "check_digits 0 0 ?num (column_sets initial_state) (box_sets initial_state) = Inr True"
    by code_simp
  have 6: "commit 0 ?num initial_state = Inr ?st1"
    by code_simp
  have 7: "backtrack ?V ?st1 = Inr (None, ?st1)"
    by (simp add: backtrack.simps row_get_def)
  from backtrack_undo_restores[OF 1 2 3 4 5 6 7, of "[]"] 6 show ?thesis by blast
qed

end
